theory Spec2Isabelle
  imports Main "HOL-Library.Char_ord" "HOL-Library.List_Lexorder" "HOL-Library.Product_Lexorder"
begin

section \<open>Secret records and change events\<close>

text \<open>
  Modelled from the spec: the class \<open>PotentialSecret\<close> lives in
  \<open>detect_secrets.core.potential_secret\<close>, which is not among the sources; the spec
  (section 3, Secret Record) gives it the attributes \<open>filename\<close>, \<open>line_number\<close>
  (a positive integer or absent), \<open>secret_hash\<close> and \<open>secret_value\<close> (filled in
  lazily during review). An absent attribute is \<open>None\<close>. Python strings are compared
  lexicographically, which is the order of \<open>string\<close> given by the two library imports.
\<close>

record potential_secret =
  filename :: string
  line_number :: "int option"
  secret_hash :: string
  secret_value :: "string option"

text \<open>
  Python's truth test \<open>not secret.line_number\<close>: \<open>None\<close> and \<open>0\<close> are both false.
\<close>

definition has_line_number :: "potential_secret \<Rightarrow> bool" where
  "has_line_number s = (case line_number s of None \<Rightarrow> False | Some n \<Rightarrow> n \<noteq> 0)"

text \<open>The integer read by the comparisons of lines 124 to 127, reached only after the truth test.\<close>

definition line_of :: "potential_secret \<Rightarrow> int" where
  "line_of s = (case line_number s of None \<Rightarrow> 0 | Some n \<Rightarrow> n)"

type_synonym change_event = "string \<times> potential_secret option \<times> potential_secret option"

datatype error =
    NoLineNumberError
  | SecretNotFoundOnSpecifiedLineError
  | AttributeError
  | IndexError

section \<open>The merge of \<open>_compare_baselines\<close>\<close>

text \<open>
  What the \<open>try\<close> body of one pass of the \<open>while\<close> loop ends with (lines 96 to 135):
  \<open>NoLineNumberError\<close> escapes the generator, the local exceptions \<open>LeftSecret\<close> and
  \<open>RightSecret\<close> reach the two handlers, and \<open>SameSecret\<close> is falling through to
  line 140.
\<close>

datatype verdict = RaiseNoLineNumber | LeftSecret | RightSecret | SameSecret

text \<open>
  Lines 96 to 135. The left record is read and tested first; an \<open>IndexError\<close> on the
  left sets \<open>exception = RightSecret\<close>, one on the right overwrites it with
  \<open>LeftSecret\<close>, and \<open>if exception: raise exception\<close> comes before any comparison.
\<close>

definition compare_cursors ::
  "potential_secret list \<Rightarrow> potential_secret list \<Rightarrow> nat \<Rightarrow> nat \<Rightarrow> verdict" where
  "compare_cursors left_secrets right_secrets left_index right_index =
     (if left_index < length left_secrets \<and> \<not> has_line_number (left_secrets ! left_index)
        then RaiseNoLineNumber
      else if right_index < length right_secrets
              \<and> \<not> has_line_number (right_secrets ! right_index)
        then RaiseNoLineNumber
      else if \<not> right_index < length right_secrets then LeftSecret
      else if \<not> left_index < length left_secrets then RightSecret
      else
        (let left_secret = left_secrets ! left_index;
             right_secret = right_secrets ! right_index
         in if filename left_secret < filename right_secret then LeftSecret
            else if filename left_secret > filename right_secret then RightSecret
            else if line_of left_secret < line_of right_secret then LeftSecret
            else if line_of left_secret > line_of right_secret then RightSecret
            else if secret_hash left_secret < secret_hash right_secret then LeftSecret
            else if secret_hash left_secret > secret_hash right_secret then RightSecret
            else SameSecret))"

text \<open>
  Lines 141 to 145 (and 148 to 152): \<open>while old_hash == secrets[index].secret_hash:
  index += 1\<close>, left by the \<open>IndexError\<close> at the end of the list. Only the hash is
  compared.
\<close>

function skip_same_hash :: "potential_secret list \<Rightarrow> string \<Rightarrow> nat \<Rightarrow> nat" where
  "skip_same_hash secrets old_hash index =
     (if index < length secrets
      then (if old_hash = secret_hash (secrets ! index)
            then skip_same_hash secrets old_hash (Suc index)
            else index)
      else index)"
  by pat_completeness auto
termination
  by (relation "measure (\<lambda>(secrets, old_hash, index). length secrets - index)") auto

declare skip_same_hash.simps [simp del]

text \<open>
  A generator is modelled by what it yields until it stops, and how it stops: \<open>None\<close> for
  a normal end, \<open>Some e\<close> for the exception \<open>e\<close> that escapes it.
\<close>

type_synonym 'a generator = "'a list \<times> error option"

definition yield :: "'a \<Rightarrow> 'a generator \<Rightarrow> 'a generator" where
  "yield x rest = (x # fst rest, snd rest)"

lemma skip_same_hash_ge: "index \<le> skip_same_hash secrets old_hash index"
proof (induction secrets old_hash index rule: skip_same_hash.induct)
  case (1 secrets old_hash index)
  show ?case
  proof (cases "index < length secrets \<and> old_hash = secret_hash (secrets ! index)")
    case True
    with "1" have "Suc index \<le> skip_same_hash secrets old_hash (Suc index)" by simp
    with True show ?thesis by (subst skip_same_hash.simps) simp
  next
    case False
    then show ?thesis by (subst skip_same_hash.simps) auto
  qed
qed

lemma skip_same_hash_le: "index \<le> length secrets \<Longrightarrow> skip_same_hash secrets old_hash index \<le> length secrets"
proof (induction secrets old_hash index rule: skip_same_hash.induct)
  case (1 secrets old_hash index)
  show ?case
  proof (cases "index < length secrets \<and> old_hash = secret_hash (secrets ! index)")
    case True
    with "1" have "skip_same_hash secrets old_hash (Suc index) \<le> length secrets" by simp
    with True show ?thesis by (subst skip_same_hash.simps) simp
  next
    case False
    with "1.prems" show ?thesis by (subst skip_same_hash.simps) auto
  qed
qed

lemma skip_same_hash_gt:
  "index < length secrets \<Longrightarrow> skip_same_hash secrets (secret_hash (secrets ! index)) index > index"
  using skip_same_hash_ge [of "Suc index" secrets "secret_hash (secrets ! index)"]
  by (subst skip_same_hash.simps) simp

lemma LeftSecret_in_range:
  "left_index < length left_secrets \<or> right_index < length right_secrets \<Longrightarrow>
   compare_cursors left_secrets right_secrets left_index right_index = LeftSecret \<Longrightarrow>
   left_index < length left_secrets"
  by (auto simp: compare_cursors_def Let_def split: if_splits)

lemma RightSecret_in_range:
  "compare_cursors left_secrets right_secrets left_index right_index = RightSecret \<Longrightarrow>
   right_index < length right_secrets"
  by (auto simp: compare_cursors_def Let_def split: if_splits)

lemma SameSecret_in_range:
  "compare_cursors left_secrets right_secrets left_index right_index = SameSecret \<Longrightarrow>
   left_index < length left_secrets \<and> right_index < length right_secrets"
  by (auto simp: compare_cursors_def Let_def split: if_splits)

text \<open>
  Lines 89 to 160: the \<open>while\<close> loop with its two cursors. The handler of \<open>LeftSecret\<close>
  yields \<open>(left_secret.filename, left_secret, None)\<close> and moves the left cursor by one,
  the handler of \<open>RightSecret\<close> does the same on the right, and a pass that raises
  neither has moved both cursors past the run of records with the matched hash.
\<close>

function compare_loop ::
  "potential_secret list \<Rightarrow> potential_secret list \<Rightarrow> nat \<Rightarrow> nat \<Rightarrow> change_event generator" where
  "compare_loop left_secrets right_secrets left_index right_index =
     (if left_index < length left_secrets \<or> right_index < length right_secrets
      then
        (case compare_cursors left_secrets right_secrets left_index right_index of
           RaiseNoLineNumber \<Rightarrow> ([], Some NoLineNumberError)
         | LeftSecret \<Rightarrow>
             yield (filename (left_secrets ! left_index), Some (left_secrets ! left_index), None)
               (compare_loop left_secrets right_secrets (Suc left_index) right_index)
         | RightSecret \<Rightarrow>
             yield (filename (right_secrets ! right_index), None, Some (right_secrets ! right_index))
               (compare_loop left_secrets right_secrets left_index (Suc right_index))
         | SameSecret \<Rightarrow>
             compare_loop left_secrets right_secrets
               (skip_same_hash left_secrets (secret_hash (left_secrets ! left_index)) left_index)
               (skip_same_hash right_secrets (secret_hash (right_secrets ! right_index)) right_index))
      else ([], None))"
  by pat_completeness auto
termination
proof (relation "measure (\<lambda>(ls, rs, li, ri). (length ls - li) + (length rs - ri))", goal_cases)
  case 1
  show ?case by simp
next
  case (2 ls rs li ri)
  then have "li < length ls" using LeftSecret_in_range [of li ls ri rs] by blast
  then show ?case by auto
next
  case (3 ls rs li ri)
  then have "ri < length rs" using RightSecret_in_range [of ls rs li ri] by blast
  then show ?case by auto
next
  case (4 ls rs li ri)
  then have in_range: "li < length ls" "ri < length rs"
    using SameSecret_in_range [of ls rs li ri] by blast+
  have "li < skip_same_hash ls (secret_hash (ls ! li)) li"
    and "ri < skip_same_hash rs (secret_hash (rs ! ri)) ri"
    using in_range by (simp_all add: skip_same_hash_gt)
  moreover have "skip_same_hash ls (secret_hash (ls ! li)) li \<le> length ls"
    and "skip_same_hash rs (secret_hash (rs ! ri)) ri \<le> length rs"
    using in_range by (simp_all add: skip_same_hash_le)
  ultimately show ?case by auto
qed

declare compare_loop.simps [simp del]

text \<open>
  Lines 86 to 89. Iterating a \<open>SecretsCollection\<close> gives pairs of a file name and a
  secret; the comprehension keeps the secrets, and both cursors start at 0.
\<close>

type_synonym secrets_collection = "(string \<times> potential_secret) list"

definition private_compare_baselines ::
  "secrets_collection \<Rightarrow> secrets_collection \<Rightarrow> change_event generator" where
  "private_compare_baselines old_baseline new_baseline =
     compare_loop (map snd old_baseline) (map snd new_baseline) 0 0"

text \<open>\<open>list(generator)\<close> of line 175: the exception of the generator escapes \<open>list\<close>.\<close>

definition list_of_generator :: "'a generator \<Rightarrow> error + 'a list" where
  "list_of_generator g = (case snd g of Some e \<Rightarrow> Inl e | None \<Rightarrow> Inr (fst g))"

section \<open>The ordering precondition and the contents of an event\<close>

text \<open>
  The key \<open>(filename, line_number, secret_hash)\<close> of the module docstring (assumption 1),
  compared as Python compares tuples: lexicographically.
\<close>

definition sort_key :: "potential_secret \<Rightarrow> string \<times> int \<times> string" where
  "sort_key s = (filename s, line_of s, secret_hash s)"

text \<open>
  The precondition of the spec (section 4.1): every record has a line number and the
  records are in non-decreasing order of their keys. Equal keys are allowed: they are the
  groups of rule 5.
\<close>

definition ordered_baseline :: "secrets_collection \<Rightarrow> bool" where
  "ordered_baseline b =
     (list_all has_line_number (map snd b) \<and> sorted (map (sort_key \<circ> snd) b))"

text \<open>The record of an event, as line 179 picks it: \<open>left_secret if left_secret else right_secret\<close>.\<close>

definition event_secret :: "change_event \<Rightarrow> potential_secret" where
  "event_secret e =
     (case fst (snd e) of Some left_secret \<Rightarrow> left_secret | None \<Rightarrow> the (snd (snd e)))"

text \<open>An event read from the other side: left and right exchanged.\<close>

definition swap_event :: "change_event \<Rightarrow> change_event" where
  "swap_event e = (fst e, snd (snd e), fst (snd e))"

text \<open>The record of an event with left present and right absent, and the converse.\<close>

definition removed_secret :: "change_event \<Rightarrow> potential_secret option" where
  "removed_secret e = (case e of (_, Some left_secret, None) \<Rightarrow> Some left_secret | _ \<Rightarrow> None)"

definition added_secret :: "change_event \<Rightarrow> potential_secret option" where
  "added_secret e = (case e of (_, None, Some right_secret) \<Rightarrow> Some right_secret | _ \<Rightarrow> None)"

text \<open>The verdict of a pass seen from the other side.\<close>

fun mirror :: "verdict \<Rightarrow> verdict" where
  "mirror LeftSecret = RightSecret"
| "mirror RightSecret = LeftSecret"
| "mirror v = v"

text \<open>The records of the examples.\<close>

definition secret_at :: "string \<Rightarrow> int \<Rightarrow> string \<Rightarrow> potential_secret" where
  "secret_at f n h =
     \<lparr>filename = f, line_number = Some n, secret_hash = h, secret_value = None\<rparr>"

definition entry :: "string \<Rightarrow> int \<Rightarrow> string \<Rightarrow> string \<times> potential_secret" where
  "entry f n h = (f, secret_at f n h)"

definition old_example :: secrets_collection where
  "old_example = [entry ''a.py'' 1 ''h1'', entry ''a.py'' 3 ''h2'', entry ''c.py'' 1 ''h1'']"

definition new_example :: secrets_collection where
  "new_example = [entry ''a.py'' 2 ''h9'', entry ''a.py'' 3 ''h2'', entry ''b.py'' 5 ''h3'']"

section \<open>Unfolding the loop\<close>

lemma compare_loop_done:
  "\<not> (li < length ls \<or> ri < length rs) \<Longrightarrow> compare_loop ls rs li ri = ([], None)"
  by (subst compare_loop.simps) simp

lemma compare_loop_raise:
  "li < length ls \<or> ri < length rs \<Longrightarrow> compare_cursors ls rs li ri = RaiseNoLineNumber \<Longrightarrow>
   compare_loop ls rs li ri = ([], Some NoLineNumberError)"
  by (subst compare_loop.simps) simp

lemma compare_loop_left:
  "li < length ls \<or> ri < length rs \<Longrightarrow> compare_cursors ls rs li ri = LeftSecret \<Longrightarrow>
   compare_loop ls rs li ri =
     yield (filename (ls ! li), Some (ls ! li), None) (compare_loop ls rs (Suc li) ri)"
  by (subst compare_loop.simps) simp

lemma compare_loop_right:
  "li < length ls \<or> ri < length rs \<Longrightarrow> compare_cursors ls rs li ri = RightSecret \<Longrightarrow>
   compare_loop ls rs li ri =
     yield (filename (rs ! ri), None, Some (rs ! ri)) (compare_loop ls rs li (Suc ri))"
  by (subst compare_loop.simps) simp

lemma compare_loop_same:
  "li < length ls \<or> ri < length rs \<Longrightarrow> compare_cursors ls rs li ri = SameSecret \<Longrightarrow>
   compare_loop ls rs li ri =
     compare_loop ls rs (skip_same_hash ls (secret_hash (ls ! li)) li)
       (skip_same_hash rs (secret_hash (rs ! ri)) ri)"
  by (subst compare_loop.simps) simp

section \<open>Every event has one record\<close>

lemma compare_loop_one_sided:
  "e \<in> set (fst (compare_loop ls rs li ri)) \<Longrightarrow> (fst (snd e) = None) \<noteq> (snd (snd e) = None)"
proof (induction ls rs li ri rule: compare_loop.induct)
  case (1 ls rs li ri)
  show ?case
  proof (cases "li < length ls \<or> ri < length rs")
    case False
    with "1.prems" show ?thesis by (simp add: compare_loop_done)
  next
    case guard: True
    show ?thesis
    proof (cases "compare_cursors ls rs li ri")
      case RaiseNoLineNumber
      with guard "1.prems" show ?thesis by (simp add: compare_loop_raise)
    next
      case LeftSecret
      with guard "1.prems" "1.IH"(1) show ?thesis
        by (auto simp: compare_loop_left yield_def)
    next
      case RightSecret
      with guard "1.prems" "1.IH"(2) show ?thesis
        by (auto simp: compare_loop_right yield_def)
    next
      case SameSecret
      with guard "1.prems" "1.IH"(3) show ?thesis
        by (simp add: compare_loop_same)
    qed
  qed
qed

text \<open>
  Claim C7. Whatever the two collections are, every change event that
  \<open>_compare_baselines\<close> yields has exactly one of its two record slots absent: never
  both \<open>None\<close>, never both present. This covers the events yielded before a
  \<open>NoLineNumberError\<close> as well.
\<close>

theorem exactly_one_side_absent:
  "\<forall>e \<in> set (fst (private_compare_baselines old_baseline new_baseline)).
     (fst (snd e) = None) \<noteq> (snd (snd e) = None)"
  unfolding private_compare_baselines_def
  by (intro ballI) (rule compare_loop_one_sided)

definition secret_a1 :: potential_secret where
  "secret_a1 = \<lparr>filename = ''a.py'', line_number = Some 1, secret_hash = ''h1'',
     secret_value = None\<rparr>"

definition secret_b1 :: potential_secret where
  "secret_b1 = \<lparr>filename = ''b.py'', line_number = Some 1, secret_hash = ''h1'',
     secret_value = None\<rparr>"

lemma scenario_two_files:
  "private_compare_baselines [(''a.py'', secret_a1)] [(''b.py'', secret_b1)] =
     ([(''a.py'', Some secret_a1, None), (''b.py'', None, Some secret_b1)], None)"
  by code_simp

theorem exactly_one_side_absent_witness:
  "fst (private_compare_baselines [(''a.py'', secret_a1)] [(''b.py'', secret_b1)])
     = [(''a.py'', Some secret_a1, None), (''b.py'', None, Some secret_b1)]
   \<and> list_all (\<lambda>e. (fst (snd e) = None) \<noteq> (snd (snd e) = None))
         (fst (private_compare_baselines [(''a.py'', secret_a1)] [(''b.py'', secret_b1)]))"
  using exactly_one_side_absent [of "[(''a.py'', secret_a1)]" "[(''b.py'', secret_b1)]"]
  by (simp add: scenario_two_files)

section \<open>Symmetry\<close>

lemma compare_cursors_mirror:
  "li < length ls \<or> ri < length rs \<Longrightarrow>
   compare_cursors rs ls ri li = mirror (compare_cursors ls rs li ri)"
  by (auto simp: compare_cursors_def Let_def)

lemma compare_loop_swap:
  "compare_loop rs ls ri li =
     (map swap_event (fst (compare_loop ls rs li ri)), snd (compare_loop ls rs li ri))"
proof (induction ls rs li ri rule: compare_loop.induct)
  case (1 ls rs li ri)
  show ?case
  proof (cases "li < length ls \<or> ri < length rs")
    case False
    then show ?thesis by (simp add: compare_loop_done)
  next
    case guard: True
    then have guard': "ri < length rs \<or> li < length ls" by blast
    note m = compare_cursors_mirror [OF guard]
    show ?thesis
    proof (cases "compare_cursors ls rs li ri")
      case RaiseNoLineNumber
      with guard guard' m show ?thesis by (simp add: compare_loop_raise)
    next
      case LeftSecret
      with guard guard' m "1.IH"(1) show ?thesis
        by (simp add: compare_loop_left compare_loop_right yield_def swap_event_def)
    next
      case RightSecret
      with guard guard' m "1.IH"(2) show ?thesis
        by (simp add: compare_loop_left compare_loop_right yield_def swap_event_def)
    next
      case SameSecret
      with guard guard' m "1.IH"(3) show ?thesis
        by (simp add: compare_loop_same)
    qed
  qed
qed

text \<open>
  Claim C5. The events of \<open>_compare_baselines(A, B)\<close> and of
  \<open>_compare_baselines(B, A)\<close> are the same events read from the other side, one for
  one and in the same order: a record removed in one direction is the same record added
  in the other, and conversely. No event lies outside the correspondence, since every
  event is a removal or an addition. The way the generator ends (normally or with
  \<open>NoLineNumberError\<close>) is the same too. This holds for all collections, valid or not.
\<close>

theorem compare_baselines_symmetric:
  "private_compare_baselines B A =
     (map swap_event (fst (private_compare_baselines A B)), snd (private_compare_baselines A B))
   \<and> List.map_filter removed_secret (fst (private_compare_baselines A B))
       = List.map_filter added_secret (fst (private_compare_baselines B A))
   \<and> List.map_filter added_secret (fst (private_compare_baselines A B))
       = List.map_filter removed_secret (fst (private_compare_baselines B A))
   \<and> length (List.map_filter removed_secret (fst (private_compare_baselines A B)))
       + length (List.map_filter added_secret (fst (private_compare_baselines A B)))
       = length (fst (private_compare_baselines A B))"
proof -
  let ?ab = "fst (private_compare_baselines A B)"
  have swap: "private_compare_baselines B A =
     (map swap_event ?ab, snd (private_compare_baselines A B))"
    unfolding private_compare_baselines_def by (rule compare_loop_swap)
  have one: "(fst (snd e) = None) \<noteq> (snd (snd e) = None)" if "e \<in> set ?ab" for e
    using that unfolding private_compare_baselines_def by (rule compare_loop_one_sided)
  have removed: "List.map_filter added_secret (map swap_event evs)
      = List.map_filter removed_secret evs" for evs
    by (induction evs)
      (auto simp: List.map_filter_simps added_secret_def removed_secret_def swap_event_def
        split: option.splits prod.splits)
  have added: "List.map_filter removed_secret (map swap_event evs)
      = List.map_filter added_secret evs" for evs
    by (induction evs)
      (auto simp: List.map_filter_simps added_secret_def removed_secret_def swap_event_def
        split: option.splits prod.splits)
  have count: "(\<forall>e \<in> set evs. (fst (snd e) = None) \<noteq> (snd (snd e) = None)) \<Longrightarrow>
      length (List.map_filter removed_secret evs) + length (List.map_filter added_secret evs)
        = length evs" for evs
    by (induction evs)
      (auto simp: List.map_filter_simps added_secret_def removed_secret_def
        split: option.splits prod.splits)
  have "\<forall>e \<in> set ?ab. (fst (snd e) = None) \<noteq> (snd (snd e) = None)"
    by (intro ballI) (rule one)
  then have "length (List.map_filter removed_secret ?ab)
      + length (List.map_filter added_secret ?ab) = length ?ab"
    by (rule count)
  with swap removed [of ?ab] added [of ?ab] show ?thesis by simp
qed

lemma example_events:
  "private_compare_baselines old_example new_example =
     ([(''a.py'', Some (secret_at ''a.py'' 1 ''h1''), None),
       (''a.py'', None, Some (secret_at ''a.py'' 2 ''h9'')),
       (''b.py'', None, Some (secret_at ''b.py'' 5 ''h3'')),
       (''c.py'', Some (secret_at ''c.py'' 1 ''h1''), None)], None)"
  by code_simp

theorem compare_baselines_symmetric_witness:
  "private_compare_baselines new_example old_example =
     ([(''a.py'', None, Some (secret_at ''a.py'' 1 ''h1'')),
       (''a.py'', Some (secret_at ''a.py'' 2 ''h9''), None),
       (''b.py'', Some (secret_at ''b.py'' 5 ''h3''), None),
       (''c.py'', None, Some (secret_at ''c.py'' 1 ''h1''))], None)"
  using compare_baselines_symmetric [of new_example old_example]
  by (simp add: example_events swap_event_def)

section \<open>Comparing a baseline with itself\<close>

lemma compare_cursors_refl:
  "i < length ls \<Longrightarrow> has_line_number (ls ! i) \<Longrightarrow> compare_cursors ls ls i i = SameSecret"
  by (simp add: compare_cursors_def Let_def)

lemma compare_loop_self:
  "rs = ls \<Longrightarrow> ri = li \<Longrightarrow> \<forall>s \<in> set ls. has_line_number s \<Longrightarrow> compare_loop ls rs li ri = ([], None)"
proof (induction ls rs li ri rule: compare_loop.induct)
  case (1 ls rs li ri)
  show ?case
  proof (cases "li < length ls")
    case False
    with "1.prems" show ?thesis by (simp add: compare_loop_done)
  next
    case True
    with "1.prems" have same: "compare_cursors ls rs li ri = SameSecret"
      by (simp add: compare_cursors_refl)
    from True have guard: "li < length ls \<or> ri < length rs" by simp
    from "1.IH"(3) [OF guard same] "1.prems" guard same show ?thesis
      by (simp add: compare_loop_same)
  qed
qed

text \<open>
  Claim C6. For every valid ordered collection \<open>B\<close> (ordered by key, every record with
  a line number), \<open>_compare_baselines(B, B)\<close> yields no change event and ends normally.
\<close>

theorem compare_baselines_self_empty:
  "ordered_baseline B \<Longrightarrow> private_compare_baselines B B = ([], None)"
  unfolding private_compare_baselines_def ordered_baseline_def
  by (intro compare_loop_self) (simp_all add: list_all_iff)

lemma old_example_ordered: "ordered_baseline old_example"
  by code_simp

lemma new_example_ordered: "ordered_baseline new_example"
  by code_simp

theorem compare_baselines_self_empty_witness:
  "ordered_baseline old_example
   \<and> private_compare_baselines old_example old_example = ([], None)"
  using compare_baselines_self_empty [of old_example] old_example_ordered
  by simp

section \<open>The order of the events\<close>

lemma LeftSecret_less:
  "compare_cursors ls rs li ri = LeftSecret \<Longrightarrow> ri < length rs \<Longrightarrow>
   sort_key (ls ! li) < sort_key (rs ! ri)"
  by (auto simp: compare_cursors_def Let_def sort_key_def split: if_splits)

lemma RightSecret_less:
  "compare_cursors ls rs li ri = RightSecret \<Longrightarrow> li < length ls \<Longrightarrow>
   sort_key (rs ! ri) < sort_key (ls ! li)"
  by (auto simp: compare_cursors_def Let_def sort_key_def split: if_splits)

lemma sorted_drop_ge:
  assumes "sorted (map f xs)" and "i < length xs" and "x \<in> set (drop i xs)"
  shows "f (xs ! i) \<le> f x"
proof -
  from assms(3) obtain j where j: "x = drop i xs ! j" "j < length xs - i"
    by (auto simp: in_set_conv_nth)
  then have x: "x = xs ! (i + j)" and lt: "i + j < length xs" by auto
  from assms(1) lt have "map f xs ! i \<le> map f xs ! (i + j)"
    by (intro sorted_nth_mono) auto
  with assms(2) lt x show ?thesis by simp
qed

lemma compare_loop_from:
  "e \<in> set (fst (compare_loop ls rs li ri)) \<Longrightarrow>
   event_secret e \<in> set (drop li ls) \<union> set (drop ri rs)"
proof (induction ls rs li ri rule: compare_loop.induct)
  case (1 ls rs li ri)
  show ?case
  proof (cases "li < length ls \<or> ri < length rs")
    case False
    with "1.prems" show ?thesis by (simp add: compare_loop_done)
  next
    case guard: True
    show ?thesis
    proof (cases "compare_cursors ls rs li ri")
      case RaiseNoLineNumber
      with guard "1.prems" show ?thesis by (simp add: compare_loop_raise)
    next
      case LeftSecret
      with guard have li: "li < length ls" using LeftSecret_in_range by blast
      from "1.prems" guard LeftSecret consider
        "e = (filename (ls ! li), Some (ls ! li), None)"
        | "e \<in> set (fst (compare_loop ls rs (Suc li) ri))"
        by (auto simp: compare_loop_left yield_def)
      then show ?thesis
      proof cases
        case 1
        with li show ?thesis
          by (simp add: event_secret_def Cons_nth_drop_Suc [symmetric])
      next
        case 2
        from "1.IH"(1) [OF guard LeftSecret 2] li show ?thesis
          by (auto simp: Cons_nth_drop_Suc [symmetric])
      qed
    next
      case RightSecret
      then have ri: "ri < length rs" using RightSecret_in_range by blast
      from "1.prems" guard RightSecret consider
        "e = (filename (rs ! ri), None, Some (rs ! ri))"
        | "e \<in> set (fst (compare_loop ls rs li (Suc ri)))"
        by (auto simp: compare_loop_right yield_def)
      then show ?thesis
      proof cases
        case 1
        with ri show ?thesis
          by (simp add: event_secret_def Cons_nth_drop_Suc [symmetric])
      next
        case 2
        from "1.IH"(2) [OF guard RightSecret 2] ri show ?thesis
          by (auto simp: Cons_nth_drop_Suc [symmetric])
      qed
    next
      case SameSecret
      with guard "1.prems" have
        "e \<in> set (fst (compare_loop ls rs (skip_same_hash ls (secret_hash (ls ! li)) li)
           (skip_same_hash rs (secret_hash (rs ! ri)) ri)))"
        by (simp add: compare_loop_same)
      from "1.IH"(3) [OF guard SameSecret this]
      show ?thesis
        using set_drop_subset_set_drop [OF skip_same_hash_ge [of li ls "secret_hash (ls ! li)"], of ls]
          set_drop_subset_set_drop [OF skip_same_hash_ge [of ri rs "secret_hash (rs ! ri)"], of rs]
        by blast
    qed
  qed
qed

lemma compare_loop_sorted:
  "sorted (map sort_key ls) \<Longrightarrow> sorted (map sort_key rs) \<Longrightarrow>
   sorted (map (sort_key \<circ> event_secret) (fst (compare_loop ls rs li ri)))"
proof (induction ls rs li ri rule: compare_loop.induct)
  case (1 ls rs li ri)
  note sl = "1.prems"(1) and sr = "1.prems"(2)
  show ?case
  proof (cases "li < length ls \<or> ri < length rs")
    case False
    then show ?thesis by (simp add: compare_loop_done)
  next
    case guard: True
    show ?thesis
    proof (cases "compare_cursors ls rs li ri")
      case RaiseNoLineNumber
      with guard show ?thesis by (simp add: compare_loop_raise)
    next
      case LeftSecret
      with guard have li: "li < length ls" using LeftSecret_in_range by blast
      have "sort_key (ls ! li) \<le> sort_key (event_secret e)"
        if "e \<in> set (fst (compare_loop ls rs (Suc li) ri))" for e
      proof -
        from compare_loop_from [OF that]
        consider "event_secret e \<in> set (drop (Suc li) ls)" | "event_secret e \<in> set (drop ri rs)"
          by blast
        then show ?thesis
        proof cases
          case 1
          then have "event_secret e \<in> set (drop li ls)"
            using set_drop_subset_set_drop [of li "Suc li" ls] by auto
          from sorted_drop_ge [OF sl li this] show ?thesis .
        next
          case 2
          then have ri: "ri < length rs" by (cases "ri < length rs") auto
          from sorted_drop_ge [OF sr ri 2] LeftSecret_less [OF LeftSecret ri]
          show ?thesis by simp
        qed
      qed
      with "1.IH"(1) [OF guard LeftSecret sl sr] guard LeftSecret show ?thesis
        by (simp add: compare_loop_left yield_def event_secret_def)
    next
      case RightSecret
      then have ri: "ri < length rs" using RightSecret_in_range by blast
      have "sort_key (rs ! ri) \<le> sort_key (event_secret e)"
        if "e \<in> set (fst (compare_loop ls rs li (Suc ri)))" for e
      proof -
        from compare_loop_from [OF that]
        consider "event_secret e \<in> set (drop li ls)" | "event_secret e \<in> set (drop (Suc ri) rs)"
          by blast
        then show ?thesis
        proof cases
          case 2
          then have "event_secret e \<in> set (drop ri rs)"
            using set_drop_subset_set_drop [of ri "Suc ri" rs] by auto
          from sorted_drop_ge [OF sr ri this] show ?thesis .
        next
          case 1
          then have li: "li < length ls" by (cases "li < length ls") auto
          from sorted_drop_ge [OF sl li 1] RightSecret_less [OF RightSecret li]
          show ?thesis by simp
        qed
      qed
      with "1.IH"(2) [OF guard RightSecret sl sr] guard RightSecret show ?thesis
        by (simp add: compare_loop_right yield_def event_secret_def)
    next
      case SameSecret
      with "1.IH"(3) [OF guard SameSecret sl sr] guard show ?thesis
        by (simp add: compare_loop_same)
    qed
  qed
qed

lemma compare_loop_no_error:
  "list_all has_line_number ls \<Longrightarrow> list_all has_line_number rs \<Longrightarrow>
   snd (compare_loop ls rs li ri) = None"
proof (induction ls rs li ri rule: compare_loop.induct)
  case (1 ls rs li ri)
  show ?case
  proof (cases "li < length ls \<or> ri < length rs")
    case False
    then show ?thesis by (simp add: compare_loop_done)
  next
    case guard: True
    show ?thesis
    proof (cases "compare_cursors ls rs li ri")
      case RaiseNoLineNumber
      with "1.prems" show ?thesis
        by (auto simp: compare_cursors_def Let_def list_all_length split: if_splits)
    next
      case LeftSecret
      with "1.IH"(1) [OF guard LeftSecret "1.prems"] guard show ?thesis
        by (simp add: compare_loop_left yield_def)
    next
      case RightSecret
      with "1.IH"(2) [OF guard RightSecret "1.prems"] guard show ?thesis
        by (simp add: compare_loop_right yield_def)
    next
      case SameSecret
      with "1.IH"(3) [OF guard SameSecret "1.prems"] guard show ?thesis
        by (simp add: compare_loop_same)
    qed
  qed
qed

text \<open>
  Claim C4. For two collections that satisfy the ordering precondition, the change events
  of \<open>_compare_baselines\<close> come in non-decreasing order of the key
  \<open>(filename, line_number, secret_hash)\<close> of the record each event carries, whichever
  side the record is from; and the generator ends normally, so these are all the events.
\<close>

theorem events_non_decreasing:
  "ordered_baseline old_baseline \<Longrightarrow> ordered_baseline new_baseline \<Longrightarrow>
   sorted (map (sort_key \<circ> event_secret)
     (fst (private_compare_baselines old_baseline new_baseline)))
   \<and> snd (private_compare_baselines old_baseline new_baseline) = None"
  unfolding private_compare_baselines_def ordered_baseline_def
  by (simp add: compare_loop_sorted compare_loop_no_error)

theorem events_non_decreasing_witness:
  "ordered_baseline old_example \<and> ordered_baseline new_example
   \<and> map (sort_key \<circ> event_secret) (fst (private_compare_baselines old_example new_example))
       = [(''a.py'', 1, ''h1''), (''a.py'', 2, ''h9''), (''b.py'', 5, ''h3''), (''c.py'', 1, ''h1'')]
   \<and> sorted (map (sort_key \<circ> event_secret)
        (fst (private_compare_baselines old_example new_example)))"
  using events_non_decreasing [OF old_example_ordered new_example_ordered]
    old_example_ordered new_example_ordered
  by (simp add: example_events sort_key_def event_secret_def secret_at_def line_of_def)

section \<open>Records that no event reports\<close>

text \<open>
  The inner loops of lines 141 to 152 go on while the hash is the matched one, whatever
  the file and the line of the record under the cursor. Here the old baseline has the
  same secret in \<open>a.py\<close> line 1 and in \<open>b.py\<close> line 2, and the new baseline has only
  the first. Both collections satisfy the ordering precondition.
\<close>

definition old_same_hash :: secrets_collection where
  "old_same_hash = [entry ''a.py'' 1 ''h1'', entry ''b.py'' 2 ''h1'']"

definition new_same_hash :: secrets_collection where
  "new_same_hash = [entry ''a.py'' 1 ''h1'']"

text \<open>
  Claim C1 at this input. The record \<open>(b.py, 2, h1)\<close> is in the old baseline only and no
  record of the new baseline has its key, so the claim wants it in exactly one event; the
  generator yields no event at all.
\<close>

theorem removed_record_not_reported:
  "ordered_baseline old_same_hash \<and> ordered_baseline new_same_hash
   \<and> secret_at ''b.py'' 2 ''h1'' \<in> set (map snd old_same_hash)
   \<and> sort_key (secret_at ''b.py'' 2 ''h1'') \<notin> set (map (sort_key \<circ> snd) new_same_hash)
   \<and> private_compare_baselines old_same_hash new_same_hash = ([], None)"
  by code_simp

text \<open>
  The same skip passes over a record that has no line number: the second record of the
  old baseline below is never under a cursor when the test of line 99 runs.
\<close>

definition old_no_line :: secrets_collection where
  "old_no_line =
     [entry ''a.py'' 1 ''h1'',
      (''b.py'', \<lparr>filename = ''b.py'', line_number = None, secret_hash = ''h1'',
         secret_value = None\<rparr>)]"

text \<open>
  Claim C3 at this input. A record of the old baseline lacks a line number, so the claim
  wants \<open>NoLineNumberError\<close>; the generator ends normally and \<open>list\<close> returns the empty
  list of events.
\<close>

theorem missing_line_number_not_raised:
  "\<not> list_all has_line_number (map snd old_no_line)
   \<and> private_compare_baselines old_no_line new_same_hash = ([], None)
   \<and> list_of_generator (private_compare_baselines old_no_line new_same_hash) = Inr []"
  by code_simp

section \<open>Inputs where a run of one hash stays at one key\<close>

text \<open>
  The two inputs above have consecutive records with one hash at different places. When
  consecutive records of a collection that share the hash also share the key
  \<open>(filename, line_number, secret_hash)\<close>, the inner loops pass records of the matched
  key only. For such inputs the events are exactly the records whose key the other
  collection lacks, each once and in order, and a record without a line number is always
  met by the test of lines 99 and 106.
\<close>

definition same_hash_same_key :: "potential_secret \<Rightarrow> potential_secret \<Rightarrow> bool" where
  "same_hash_same_key a b = (secret_hash a = secret_hash b \<longrightarrow> sort_key a = sort_key b)"

text \<open>Consecutive records with the same hash have the same key.\<close>

definition runs_at_one_key :: "potential_secret list \<Rightarrow> bool" where
  "runs_at_one_key secrets = successively same_hash_same_key secrets"

text \<open>The inner loop as \<open>dropWhile\<close> on the rest of the list.\<close>

lemma drop_skip_same_hash:
  "drop (skip_same_hash xs h i) xs = dropWhile (\<lambda>s. secret_hash s = h) (drop i xs)"
proof (induction xs h i rule: skip_same_hash.induct)
  case (1 xs h i)
  show ?case
  proof (cases "i < length xs")
    case False
    then show ?thesis by (subst skip_same_hash.simps) simp
  next
    case True
    then have split: "drop i xs = xs ! i # drop (Suc i) xs"
      by (simp add: Cons_nth_drop_Suc)
    show ?thesis
    proof (cases "h = secret_hash (xs ! i)")
      case True
      with \<open>i < length xs\<close> "1.IH" show ?thesis
        by (subst skip_same_hash.simps) (simp add: split)
    next
      case False
      with \<open>i < length xs\<close> show ?thesis
        by (subst skip_same_hash.simps) (auto simp: split)
    qed
  qed
qed

lemma take_skip_same_hash:
  "take (skip_same_hash xs h i) xs = take i xs @ takeWhile (\<lambda>s. secret_hash s = h) (drop i xs)"
proof -
  have "take (skip_same_hash xs h i) xs @ drop (skip_same_hash xs h i) xs
      = (take i xs @ takeWhile (\<lambda>s. secret_hash s = h) (drop i xs))
        @ dropWhile (\<lambda>s. secret_hash s = h) (drop i xs)"
    by simp
  then show ?thesis
    unfolding drop_skip_same_hash by (simp only: append_same_eq)
qed

lemma run_keys:
  "successively same_hash_same_key (x # run) \<Longrightarrow>
   \<forall>t \<in> set run. secret_hash t = secret_hash x \<Longrightarrow>
   \<forall>t \<in> set run. sort_key t = sort_key x"
proof (induction run arbitrary: x)
  case Nil
  then show ?case by simp
next
  case (Cons t run)
  from Cons.prems have t: "sort_key t = sort_key x" "secret_hash t = secret_hash x"
    by (auto simp: same_hash_same_key_def)
  from Cons.prems have "successively same_hash_same_key (t # run)" by simp
  moreover from Cons.prems t have "\<forall>u \<in> set run. secret_hash u = secret_hash t" by simp
  ultimately have "\<forall>u \<in> set run. sort_key u = sort_key t" by (rule Cons.IH)
  with t show ?case by simp
qed

text \<open>The records that one skip passes all carry the key of the first.\<close>

lemma skipped_keys:
  assumes "runs_at_one_key xs" and "i < length xs"
    and "t \<in> set (takeWhile (\<lambda>s. secret_hash s = secret_hash (xs ! i)) (drop i xs))"
  shows "sort_key t = sort_key (xs ! i)"
proof -
  let ?P = "\<lambda>s. secret_hash s = secret_hash (xs ! i)"
  from assms(2) have split: "drop i xs = xs ! i # drop (Suc i) xs"
    by (simp add: Cons_nth_drop_Suc)
  then have tw: "takeWhile ?P (drop i xs) = xs ! i # takeWhile ?P (drop (Suc i) xs)"
    by simp
  have "successively same_hash_same_key (take i xs @ drop i xs)"
    using assms(1) by (simp add: runs_at_one_key_def)
  then have "successively same_hash_same_key (drop i xs)"
    unfolding successively_append_iff by blast
  then have "successively same_hash_same_key (takeWhile ?P (drop i xs) @ dropWhile ?P (drop i xs))"
    by simp
  then have "successively same_hash_same_key (takeWhile ?P (drop i xs))"
    unfolding successively_append_iff by blast
  then have "successively same_hash_same_key (xs ! i # takeWhile ?P (drop (Suc i) xs))"
    by (simp only: tw)
  moreover have "\<forall>t \<in> set (takeWhile ?P (drop (Suc i) xs)). secret_hash t = secret_hash (xs ! i)"
    by (auto dest: set_takeWhileD)
  ultimately have "\<forall>t \<in> set (takeWhile ?P (drop (Suc i) xs)). sort_key t = sort_key (xs ! i)"
    by (rule run_keys)
  with assms(3) show ?thesis unfolding tw by auto
qed

text \<open>The records after a skip have greater keys than the skipped ones.\<close>

lemma after_skip_greater:
  assumes "sorted (map sort_key xs)" and "i < length xs"
    and "x \<in> set (drop (skip_same_hash xs (secret_hash (xs ! i)) i) xs)"
  shows "sort_key (xs ! i) < sort_key x"
proof -
  let ?P = "\<lambda>s. secret_hash s = secret_hash (xs ! i)"
  let ?j = "skip_same_hash xs (secret_hash (xs ! i)) i"
  from assms(3) have ne: "drop ?j xs \<noteq> []" by auto
  then have j: "?j < length xs" by simp
  have "\<not> ?P (hd (dropWhile ?P (drop i xs)))"
    using ne unfolding drop_skip_same_hash by (rule hd_dropWhile)
  then have "secret_hash (xs ! ?j) \<noteq> secret_hash (xs ! i)"
    using j unfolding drop_skip_same_hash [symmetric] by (simp add: hd_drop_conv_nth)
  then have neq: "sort_key (xs ! ?j) \<noteq> sort_key (xs ! i)"
    by (auto simp: sort_key_def)
  have "i \<le> ?j" by (rule skip_same_hash_ge)
  with assms(1) j have "map sort_key xs ! i \<le> map sort_key xs ! ?j"
    by (intro sorted_nth_mono) auto
  with assms(2) j neq have "sort_key (xs ! i) < sort_key (xs ! ?j)" by simp
  also have "sort_key (xs ! ?j) \<le> sort_key x"
    using assms(1) j assms(3) by (rule sorted_drop_ge)
  finally show ?thesis .
qed


lemma SameSecret_key:
  "compare_cursors ls rs li ri = SameSecret \<Longrightarrow> sort_key (ls ! li) = sort_key (rs ! ri)"
  by (auto simp: compare_cursors_def Let_def sort_key_def split: if_splits)

lemma no_raise:
  "list_all has_line_number ls \<Longrightarrow> list_all has_line_number rs \<Longrightarrow>
   compare_cursors ls rs li ri \<noteq> RaiseNoLineNumber"
  by (auto simp: compare_cursors_def Let_def list_all_length)

lemma drop_skip_split:
  "drop i xs = takeWhile (\<lambda>s. secret_hash s = h) (drop i xs) @ drop (skip_same_hash xs h i) xs"
  unfolding drop_skip_same_hash by simp

text \<open>
  The removals from the two cursors on, given that no record ahead of one cursor has the
  key of a record behind the other.
\<close>

lemma compare_loop_removed:
  assumes "sorted (map sort_key ls)" and "sorted (map sort_key rs)"
    and "runs_at_one_key ls" and "runs_at_one_key rs"
    and "list_all has_line_number ls" and "list_all has_line_number rs"
    and "\<forall>x \<in> set (drop li ls). sort_key x \<notin> sort_key ` set (take ri rs)"
    and "\<forall>y \<in> set (drop ri rs). sort_key y \<notin> sort_key ` set (take li ls)"
  shows "List.map_filter removed_secret (fst (compare_loop ls rs li ri))
     = filter (\<lambda>s. sort_key s \<notin> sort_key ` set rs) (drop li ls)"
  using assms
proof (induction ls rs li ri rule: compare_loop.induct)
  case (1 ls rs li ri)
  note sl = "1.prems"(1) and sr = "1.prems"(2) and rl = "1.prems"(3) and rr = "1.prems"(4)
    and hl = "1.prems"(5) and hr = "1.prems"(6) and inv1 = "1.prems"(7) and inv2 = "1.prems"(8)
  have keys_rs: "sort_key ` set rs = sort_key ` set (take ri rs) \<union> sort_key ` set (drop ri rs)"
    by (metis append_take_drop_id image_Un set_append)
  show ?case
  proof (cases "li < length ls \<or> ri < length rs")
    case False
    then show ?thesis by (simp add: compare_loop_done List.map_filter_simps)
  next
    case guard: True
    show ?thesis
    proof (cases "compare_cursors ls rs li ri")
      case RaiseNoLineNumber
      with no_raise [OF hl hr] show ?thesis by simp
    next
      case LeftSecret
      with guard have li: "li < length ls" using LeftSecret_in_range by blast
      then have split: "drop li ls = ls ! li # drop (Suc li) ls"
        by (simp add: Cons_nth_drop_Suc)
      have below: "sort_key (ls ! li) < sort_key y" if "y \<in> set (drop ri rs)" for y
      proof -
        from that have ri: "ri < length rs" by (cases "ri < length rs") auto
        from LeftSecret_less [OF LeftSecret ri] sorted_drop_ge [OF sr ri that]
        show ?thesis by simp
      qed
      have "sort_key (ls ! li) \<notin> sort_key ` set (take ri rs)"
        using inv1 split by simp
      moreover have "sort_key (ls ! li) \<notin> sort_key ` set (drop ri rs)"
        using below by fastforce
      ultimately have absent: "sort_key (ls ! li) \<notin> sort_key ` set rs"
        unfolding keys_rs by simp
      have inv1': "\<forall>x \<in> set (drop (Suc li) ls). sort_key x \<notin> sort_key ` set (take ri rs)"
        using inv1 split by simp
      have inv2': "\<forall>y \<in> set (drop ri rs). sort_key y \<notin> sort_key ` set (take (Suc li) ls)"
      proof
        fix y assume y: "y \<in> set (drop ri rs)"
        with inv2 have "sort_key y \<notin> sort_key ` set (take li ls)" by blast
        moreover from below [OF y] have "sort_key y \<noteq> sort_key (ls ! li)" by simp
        ultimately show "sort_key y \<notin> sort_key ` set (take (Suc li) ls)"
          using li by (auto simp: take_Suc_conv_app_nth)
      qed
      from "1.IH"(1) [OF guard LeftSecret sl sr rl rr hl hr inv1' inv2'] guard LeftSecret absent
      show ?thesis
        by (simp add: compare_loop_left yield_def List.map_filter_simps removed_secret_def split)
    next
      case RightSecret
      then have ri: "ri < length rs" using RightSecret_in_range by blast
      then have split: "drop ri rs = rs ! ri # drop (Suc ri) rs"
        by (simp add: Cons_nth_drop_Suc)
      have below: "sort_key (rs ! ri) < sort_key x" if "x \<in> set (drop li ls)" for x
      proof -
        from that have li: "li < length ls" by (cases "li < length ls") auto
        from RightSecret_less [OF RightSecret li] sorted_drop_ge [OF sl li that]
        show ?thesis by simp
      qed
      have inv1': "\<forall>x \<in> set (drop li ls). sort_key x \<notin> sort_key ` set (take (Suc ri) rs)"
      proof
        fix x assume x: "x \<in> set (drop li ls)"
        with inv1 have "sort_key x \<notin> sort_key ` set (take ri rs)" by blast
        moreover from below [OF x] have "sort_key x \<noteq> sort_key (rs ! ri)" by simp
        ultimately show "sort_key x \<notin> sort_key ` set (take (Suc ri) rs)"
          using ri by (auto simp: take_Suc_conv_app_nth)
      qed
      have inv2': "\<forall>y \<in> set (drop (Suc ri) rs). sort_key y \<notin> sort_key ` set (take li ls)"
        using inv2 split by simp
      from "1.IH"(2) [OF guard RightSecret sl sr rl rr hl hr inv1' inv2'] guard RightSecret
      show ?thesis
        by (simp add: compare_loop_right yield_def List.map_filter_simps removed_secret_def)
    next
      case SameSecret
      then have li: "li < length ls" and ri: "ri < length rs"
        using SameSecret_in_range by blast+
      note key = SameSecret_key [OF SameSecret]
      let ?li = "skip_same_hash ls (secret_hash (ls ! li)) li"
      let ?ri = "skip_same_hash rs (secret_hash (rs ! ri)) ri"
      let ?skipped_l = "takeWhile (\<lambda>s. secret_hash s = secret_hash (ls ! li)) (drop li ls)"
      let ?skipped_r = "takeWhile (\<lambda>s. secret_hash s = secret_hash (rs ! ri)) (drop ri rs)"
      have split_l: "drop li ls = ?skipped_l @ drop ?li ls" by (rule drop_skip_split)
      have split_r: "drop ri rs = ?skipped_r @ drop ?ri rs" by (rule drop_skip_split)
      have keys_l: "sort_key t = sort_key (ls ! li)" if "t \<in> set ?skipped_l" for t
        using rl li that by (rule skipped_keys)
      have keys_r: "sort_key t = sort_key (rs ! ri)" if "t \<in> set ?skipped_r" for t
        using rr ri that by (rule skipped_keys)
      have "rs ! ri \<in> set rs" using ri by simp
      then have "sort_key (ls ! li) \<in> sort_key ` set rs" unfolding key by (rule imageI)
      then have "filter (\<lambda>s. sort_key s \<notin> sort_key ` set rs) ?skipped_l = []"
        using keys_l by (auto simp: filter_empty_conv)
      then have rhs: "filter (\<lambda>s. sort_key s \<notin> sort_key ` set rs) (drop li ls)
          = filter (\<lambda>s. sort_key s \<notin> sort_key ` set rs) (drop ?li ls)"
        by (subst split_l) simp
      have inv1': "\<forall>x \<in> set (drop ?li ls). sort_key x \<notin> sort_key ` set (take ?ri rs)"
      proof
        fix x assume x: "x \<in> set (drop ?li ls)"
        then have "x \<in> set (drop li ls)" by (subst split_l) simp
        with inv1 have "sort_key x \<notin> sort_key ` set (take ri rs)" by blast
        moreover from after_skip_greater [OF sl li x] key
        have "sort_key x \<noteq> sort_key (rs ! ri)" by simp
        then have "sort_key x \<notin> sort_key ` set ?skipped_r" using keys_r by auto
        ultimately show "sort_key x \<notin> sort_key ` set (take ?ri rs)"
          by (auto simp: take_skip_same_hash)
      qed
      have inv2': "\<forall>y \<in> set (drop ?ri rs). sort_key y \<notin> sort_key ` set (take ?li ls)"
      proof
        fix y assume y: "y \<in> set (drop ?ri rs)"
        then have "y \<in> set (drop ri rs)" by (subst split_r) simp
        with inv2 have "sort_key y \<notin> sort_key ` set (take li ls)" by blast
        moreover from after_skip_greater [OF sr ri y] key
        have "sort_key y \<noteq> sort_key (ls ! li)" by simp
        then have "sort_key y \<notin> sort_key ` set ?skipped_l" using keys_l by auto
        ultimately show "sort_key y \<notin> sort_key ` set (take ?li ls)"
          by (auto simp: take_skip_same_hash)
      qed
      from "1.IH"(3) [OF guard SameSecret sl sr rl rr hl hr inv1' inv2'] guard SameSecret rhs
      show ?thesis by (simp add: compare_loop_same)
    qed
  qed
qed


lemma added_of_swapped:
  "List.map_filter added_secret (map swap_event evs) = List.map_filter removed_secret evs"
  by (induction evs)
    (auto simp: List.map_filter_simps added_secret_def removed_secret_def swap_event_def
      split: option.splits prod.splits)

text \<open>
  Coverage: the removed records are the old records whose key the new baseline lacks, and
  the added records are the new records whose key the old baseline lacks.
\<close>

lemma reported_records:
  assumes "ordered_baseline old_baseline" and "ordered_baseline new_baseline"
    and "runs_at_one_key (map snd old_baseline)" and "runs_at_one_key (map snd new_baseline)"
  shows "List.map_filter removed_secret (fst (private_compare_baselines old_baseline new_baseline))
      = filter (\<lambda>s. sort_key s \<notin> sort_key ` set (map snd new_baseline)) (map snd old_baseline)"
    and "List.map_filter added_secret (fst (private_compare_baselines old_baseline new_baseline))
      = filter (\<lambda>s. sort_key s \<notin> sort_key ` set (map snd old_baseline)) (map snd new_baseline)"
proof -
  let ?ls = "map snd old_baseline" and ?rs = "map snd new_baseline"
  from assms(1,2) have sorted: "sorted (map sort_key ?ls)" "sorted (map sort_key ?rs)"
    and lines: "list_all has_line_number ?ls" "list_all has_line_number ?rs"
    by (simp_all add: ordered_baseline_def)
  from compare_loop_removed [OF sorted assms(3,4) lines, of 0 0]
  show "List.map_filter removed_secret (fst (private_compare_baselines old_baseline new_baseline))
      = filter (\<lambda>s. sort_key s \<notin> sort_key ` set ?rs) ?ls"
    by (simp add: private_compare_baselines_def)
  from compare_loop_removed [OF sorted(2,1) assms(4,3) lines(2,1), of 0 0]
  have "List.map_filter removed_secret (fst (compare_loop ?rs ?ls 0 0))
      = filter (\<lambda>s. sort_key s \<notin> sort_key ` set ?ls) ?rs"
    by simp
  then show "List.map_filter added_secret (fst (private_compare_baselines old_baseline new_baseline))
      = filter (\<lambda>s. sort_key s \<notin> sort_key ` set ?ls) ?rs"
    unfolding private_compare_baselines_def
    by (subst compare_loop_swap) (simp add: added_of_swapped)
qed

lemma same_key_has_line_number:
  "sort_key t = sort_key s \<Longrightarrow> has_line_number s \<Longrightarrow> has_line_number t"
  by (auto simp: sort_key_def line_of_def has_line_number_def split: option.splits)

lemma cursor_has_line_number:
  "compare_cursors ls rs li ri \<noteq> RaiseNoLineNumber \<Longrightarrow>
   (li < length ls \<longrightarrow> has_line_number (ls ! li)) \<and> (ri < length rs \<longrightarrow> has_line_number (rs ! ri))"
  by (auto simp: compare_cursors_def Let_def split: if_splits)

text \<open>A record without a line number ahead of a cursor makes the generator raise.\<close>

lemma compare_loop_raises:
  assumes "runs_at_one_key ls" and "runs_at_one_key rs"
    and "\<exists>s \<in> set (drop li ls) \<union> set (drop ri rs). \<not> has_line_number s"
  shows "snd (compare_loop ls rs li ri) = Some NoLineNumberError"
  using assms
proof (induction ls rs li ri rule: compare_loop.induct)
  case (1 ls rs li ri)
  note rl = "1.prems"(1) and rr = "1.prems"(2)
  from "1.prems"(3) obtain s where s: "s \<in> set (drop li ls) \<union> set (drop ri rs)"
    and lacks: "\<not> has_line_number s" by blast
  from s have guard: "li < length ls \<or> ri < length rs"
    by (cases "li < length ls"; cases "ri < length rs") auto
  show ?case
  proof (cases "compare_cursors ls rs li ri")
    case RaiseNoLineNumber
    with guard show ?thesis by (simp add: compare_loop_raise)
  next
    case LeftSecret
    with guard have li: "li < length ls" using LeftSecret_in_range by blast
    from LeftSecret li have "has_line_number (ls ! li)"
      using cursor_has_line_number [of ls rs li ri] by simp
    with lacks have "s \<noteq> ls ! li" by blast
    with s li have "s \<in> set (drop (Suc li) ls) \<union> set (drop ri rs)"
      by (auto simp: Cons_nth_drop_Suc [symmetric])
    with lacks have "\<exists>s \<in> set (drop (Suc li) ls) \<union> set (drop ri rs). \<not> has_line_number s"
      by blast
    from "1.IH"(1) [OF guard LeftSecret rl rr this] guard LeftSecret show ?thesis
      by (simp add: compare_loop_left yield_def)
  next
    case RightSecret
    then have ri: "ri < length rs" using RightSecret_in_range by blast
    from RightSecret ri have "has_line_number (rs ! ri)"
      using cursor_has_line_number [of ls rs li ri] by simp
    with lacks have "s \<noteq> rs ! ri" by blast
    with s ri have "s \<in> set (drop li ls) \<union> set (drop (Suc ri) rs)"
      by (auto simp: Cons_nth_drop_Suc [symmetric])
    with lacks have "\<exists>s \<in> set (drop li ls) \<union> set (drop (Suc ri) rs). \<not> has_line_number s"
      by blast
    from "1.IH"(2) [OF guard RightSecret rl rr this] guard RightSecret show ?thesis
      by (simp add: compare_loop_right yield_def)
  next
    case SameSecret
    then have li: "li < length ls" and ri: "ri < length rs"
      using SameSecret_in_range by blast+
    from SameSecret li ri have lines: "has_line_number (ls ! li)" "has_line_number (rs ! ri)"
      using cursor_has_line_number [of ls rs li ri] by simp_all
    let ?li = "skip_same_hash ls (secret_hash (ls ! li)) li"
    let ?ri = "skip_same_hash rs (secret_hash (rs ! ri)) ri"
    let ?skipped_l = "takeWhile (\<lambda>s. secret_hash s = secret_hash (ls ! li)) (drop li ls)"
    let ?skipped_r = "takeWhile (\<lambda>s. secret_hash s = secret_hash (rs ! ri)) (drop ri rs)"
    have split_l: "drop li ls = ?skipped_l @ drop ?li ls" by (rule drop_skip_split)
    have split_r: "drop ri rs = ?skipped_r @ drop ?ri rs" by (rule drop_skip_split)
    have "has_line_number t" if "t \<in> set ?skipped_l" for t
      using skipped_keys [OF rl li that] lines(1) by (rule same_key_has_line_number)
    moreover have "has_line_number t" if "t \<in> set ?skipped_r" for t
      using skipped_keys [OF rr ri that] lines(2) by (rule same_key_has_line_number)
    ultimately have "s \<notin> set ?skipped_l" "s \<notin> set ?skipped_r" using lacks by blast+
    moreover from s have "s \<in> set ?skipped_l \<union> set (drop ?li ls) \<union> (set ?skipped_r \<union> set (drop ?ri rs))"
      by (subst (asm) split_l, subst (asm) split_r) auto
    ultimately have "s \<in> set (drop ?li ls) \<union> set (drop ?ri rs)" by blast
    with lacks have "\<exists>s \<in> set (drop ?li ls) \<union> set (drop ?ri rs). \<not> has_line_number s"
      by blast
    from "1.IH"(3) [OF guard SameSecret rl rr this] guard SameSecret show ?thesis
      by (simp add: compare_loop_same)
  qed
qed

lemma missing_line_number_raises:
  assumes "runs_at_one_key (map snd old_baseline)" and "runs_at_one_key (map snd new_baseline)"
    and "\<not> list_all has_line_number (map snd old_baseline @ map snd new_baseline)"
  shows "list_of_generator (private_compare_baselines old_baseline new_baseline)
     = Inl NoLineNumberError"
proof -
  from assms(3) have "\<exists>s \<in> set (drop 0 (map snd old_baseline)) \<union> set (drop 0 (map snd new_baseline)).
      \<not> has_line_number s"
    by (auto simp: list_all_iff)
  from compare_loop_raises [OF assms(1,2) this] show ?thesis
    by (simp add: private_compare_baselines_def list_of_generator_def)
qed

section \<open>Injection of arguments (\<open>util/inject.py\<close>)\<close>

text \<open>
  The part of a code object that \<open>get_injectable_variables\<close> reads (lines 77 and 78).
\<close>

record code_object =
  co_varnames :: "string list"
  co_argcount :: nat
  co_kwonlyargcount :: nat

text \<open>
  A Python function object: its \<open>__name__\<close>, its \<open>__code__\<close>, and the two attributes
  that \<open>make_function_self_aware\<close> attaches to it, \<open>None\<close> while the attribute is absent.
\<close>

record function_object =
  fn_name :: string
  fn_code :: code_object
  injectable_variables :: "string set option"
  path :: "string option"

text \<open>
  An instance is the identifier of its class (\<open>__class__\<close>) and its own. The values of a
  pool are strings, integers and instances. A callable is a plain function, given by the
  address of its function object, or a bound method with its \<open>__self__\<close> and the address
  of its \<open>__func__\<close>.
\<close>

type_synonym py_instance = "nat \<times> nat"

datatype py_value = PyStr string | PyInt int | PyInstance py_instance

datatype callable = Function nat | Method py_instance nat

text \<open>
  The store: the function objects by address (they are mutable: attributes are set on
  them), \<open>getattr(klass, name)\<close> for the names that are functions of the class, and the
  text of \<open>f'{klass}'\<close>.
\<close>

record heap =
  function_objects :: "nat \<Rightarrow> function_object"
  class_attr :: "nat \<Rightarrow> string \<rightharpoonup> nat"
  class_repr :: "nat \<Rightarrow> string"

text \<open>\<open>inspect.ismethod\<close>, and the function object behind a callable: a bound method
  passes \<open>__code__\<close>, \<open>__name__\<close> and every attribute it does not have itself on to its
  \<open>__func__\<close>.\<close>

fun ismethod :: "callable \<Rightarrow> bool" where
  "ismethod (Method _ _) = True"
| "ismethod (Function _) = False"

fun underlying :: "callable \<Rightarrow> nat" where
  "underlying (Function a) = a"
| "underlying (Method _ a) = a"

text \<open>Lines 64 to 79: \<open>co_varnames[:co_argcount + co_kwonlyargcount]\<close>.\<close>

definition get_injectable_variables :: "heap \<Rightarrow> callable \<Rightarrow> string list" where
  "get_injectable_variables h func =
     (let code = fn_code (function_objects h (underlying func));
          variable_names = co_varnames code;
          arg_count = co_argcount code + co_kwonlyargcount code
      in take arg_count variable_names)"

text \<open>Setting attributes on the function object at an address.\<close>

definition set_attrs :: "heap \<Rightarrow> nat \<Rightarrow> (function_object \<Rightarrow> function_object) \<Rightarrow> heap" where
  "set_attrs h a upd = h\<lparr>function_objects := (function_objects h)(a := upd (function_objects h a))\<rparr>"

text \<open>
  Lines 41 to 61. \<open>hasattr(func, 'injectable_variables')\<close> looks at the function object
  behind \<open>func\<close>. For a method, the function of the class gets both attributes; for
  anything else the \<open>else\<close> branch of lines 57 to 59 sets \<open>path\<close> only.
  \<open>getattr(klass, name)\<close> raises \<open>AttributeError\<close> when the class has no such function.
  The store is returned in every case: attributes that were set stay set.
\<close>

definition make_function_self_aware :: "heap \<Rightarrow> callable \<Rightarrow> (error + callable) \<times> heap" where
  "make_function_self_aware h func =
     (if injectable_variables (function_objects h (underlying func)) \<noteq> None then (Inr func, h)
      else
        (case func of
           Method self a \<Rightarrow>
             (let klass = fst self in
              case class_attr h klass (fn_name (function_objects h a)) of
                None \<Rightarrow> (Inl AttributeError, h)
              | Some function \<Rightarrow>
                  (Inr (Function function),
                   set_attrs h function (\<lambda>f. f\<lparr>
                     injectable_variables := Some (set (get_injectable_variables h func)),
                     path := Some (class_repr h klass @ ''.'' @ fn_name (function_objects h a))\<rparr>)))
         | Function a \<Rightarrow>
             (Inr (Function a),
              set_attrs h a (\<lambda>f. f\<lparr>path := Some (fn_name (function_objects h a))\<rparr>))))"

text \<open>The keyword arguments: a dict from names to values.\<close>

type_synonym kwargs = "string \<rightharpoonup> py_value"

text \<open>
  Lines 19 to 22. The class \<open>SelfAwareCallable\<close> of \<open>custom_types\<close> is not among the
  sources, so the test \<open>isinstance(func, SelfAwareCallable)\<close> is a parameter.
\<close>

definition self_aware_form ::
  "(callable \<Rightarrow> bool) \<Rightarrow> heap \<Rightarrow> callable \<Rightarrow> (error + callable) \<times> heap" where
  "self_aware_form isinstance_SelfAwareCallable h func =
     (if \<not> isinstance_SelfAwareCallable func then make_function_self_aware h func
      else (Inr func, h))"

text \<open>
  Lines 27 to 30: \<open>kwargs[get_injectable_variables(func)[0]] = func.__self__\<close> when
  \<open>func\<close> is a method and \<open>function\<close> is not; \<open>[0]\<close> of an empty tuple raises
  \<open>IndexError\<close>. \<open>kwargs\<close> is the dict that \<open>**kwargs\<close> built for this call, so the
  caller's own dict is never written.
\<close>

definition add_instance :: "heap \<Rightarrow> callable \<Rightarrow> callable \<Rightarrow> kwargs \<Rightarrow> error + kwargs" where
  "add_instance h func function kwargs =
     (case func of
        Method self a \<Rightarrow>
          (if \<not> ismethod function
           then (case get_injectable_variables h func of
                   [] \<Rightarrow> Inl IndexError
                 | first # _ \<Rightarrow> Inr (kwargs(first \<mapsto> PyInstance self)))
           else Inr kwargs)
      | Function a \<Rightarrow> Inr kwargs)"

text \<open>
  Lines 11 to 38. Reading \<open>function.injectable_variables\<close> at line 35 raises
  \<open>AttributeError\<close> when the attribute is absent. The first component of the result is
  the exception that escapes, or the call that line 38 makes, \<open>function(**values)\<close>, as
  the callable and the keyword arguments it is called with. The second component is the
  store at that moment: an exception of line 30 or 35 comes after the attributes were set
  and does not undo them.
\<close>

definition call_function_with_arguments ::
  "(callable \<Rightarrow> bool) \<Rightarrow> heap \<Rightarrow> callable \<Rightarrow> kwargs
     \<Rightarrow> (error + callable \<times> kwargs) \<times> heap" where
  "call_function_with_arguments isinstance_SelfAwareCallable h func kwargs =
     (case self_aware_form isinstance_SelfAwareCallable h func of
        (Inl e, h') \<Rightarrow> (Inl e, h')
      | (Inr function, h') \<Rightarrow>
          (case add_instance h' func function kwargs of
             Inl e \<Rightarrow> (Inl e, h')
           | Inr kwargs' \<Rightarrow>
               (case injectable_variables (function_objects h' (underlying function)) of
                  None \<Rightarrow> (Inl AttributeError, h')
                | Some variables \<Rightarrow>
                    (let variables_to_inject = dom kwargs';
                         values = kwargs' |` (variables_to_inject \<inter> variables)
                     in (Inr (function, values), h')))))"

subsection \<open>What the call is\<close>

lemma restrict_dom_inter: "m |` (dom m \<inter> A) = m |` A"
  by (rule ext) (auto simp: restrict_map_def dom_def)


lemma plain_function_without_attribute:
  "injectable_variables (function_objects h a) = None \<Longrightarrow>
   call_function_with_arguments isinstance_SelfAwareCallable h (Function a) kwargs
     = (Inl AttributeError,
        if isinstance_SelfAwareCallable (Function a) then h
        else set_attrs h a (\<lambda>f. f\<lparr>path := Some (fn_name (function_objects h a))\<rparr>))"
  by (simp add: call_function_with_arguments_def self_aware_form_def
      make_function_self_aware_def add_instance_def set_attrs_def)

lemma plain_function_with_attribute:
  "injectable_variables (function_objects h a) = Some variables \<Longrightarrow>
   call_function_with_arguments isinstance_SelfAwareCallable h (Function a) kwargs
     = (Inr (Function a, kwargs |` variables), h)"
  by (simp add: call_function_with_arguments_def self_aware_form_def
      make_function_self_aware_def add_instance_def restrict_dom_inter)




subsection \<open>Examples\<close>

text \<open>
  A store with the plain function \<open>decide(secret)\<close> at every address but 3, and at
  address 3 the function \<open>review(this, secret)\<close> of class 7, whose local variable
  \<open>shown\<close> is no parameter. No function object has an attribute yet.
\<close>

definition review_heap :: heap where
  "review_heap =
     \<lparr>function_objects = (\<lambda>a.
        if a = 3
        then \<lparr>fn_name = ''review'',
               fn_code = \<lparr>co_varnames = [''this'', ''secret'', ''shown''], co_argcount = 2,
                 co_kwonlyargcount = 0\<rparr>,
               injectable_variables = None, path = None\<rparr>
        else \<lparr>fn_name = ''decide'',
               fn_code = \<lparr>co_varnames = [''secret''], co_argcount = 1,
                 co_kwonlyargcount = 0\<rparr>,
               injectable_variables = None, path = None\<rparr>),
      class_attr = (\<lambda>klass. if klass = 7 then [''review'' \<mapsto> 3] else Map.empty),
      class_repr = (\<lambda>klass. ''Reviewer'')\<rparr>"

definition pool :: kwargs where
  "pool = [''secret'' \<mapsto> PyStr ''X'', ''header'' \<mapsto> PyStr ''Y'']"





text \<open>
  Claim C2 at the input of the spec's scenario. The decision function declares only
  \<open>secret\<close> and the pool is \<open>{secret: X, header: Y}\<close>; the claim wants the function
  called with \<open>secret=X\<close> alone. \<open>make_function_self_aware\<close> has set only \<open>path\<close> on a
  plain function, so line 35 raises \<open>AttributeError\<close> and the function is not called.
\<close>

theorem plain_function_raises_AttributeError:
  "injectable_variables (function_objects review_heap 0) = None
   \<and> get_injectable_variables review_heap (Function 0) = [''secret'']
   \<and> call_function_with_arguments (\<lambda>func. False) review_heap (Function 0) pool
       = (Inl AttributeError, set_attrs review_heap 0 (\<lambda>f. f\<lparr>path := Some ''decide''\<rparr>))"
  by (simp add: plain_function_without_attribute review_heap_def get_injectable_variables_def)






section \<open>The review session (\<open>_display_difference_to_user\<close>)\<close>

text \<open>
  Modelled from the spec: the module \<open>audit.io\<close> is not among the sources.
  \<open>InputOptions\<close> is the Decision of the spec (section 3): quit, step back, and the
  default that advances; the source names \<open>QUIT\<close> and \<open>BACK\<close> and treats every other
  answer alike.
\<close>

datatype input_options = QUIT | BACK | ADVANCE

text \<open>The colours of \<open>util.color.AnsiColor\<close> that lines 191 to 195 use.\<close>

datatype ansi_color = BOLD | RED | LIGHT_GREEN

text \<open>
  Modelled from the spec: \<open>custom_types.SecretContext\<close> is not among the sources; these
  are the fields that lines 186 to 216 pass, the ones left out being \<open>None\<close> (the Review
  Context of the spec: an error payload instead of a snippet on resolution failure).
\<close>

record secret_context =
  current_index :: nat
  num_total_secrets :: nat
  secret :: potential_secret
  header :: "string option"
  snippet :: "string list option"
  error :: "error option"

text \<open>
  The calls on the presentation collaborator (spec, section 6), in the order they are
  made: the session is observed through them.
\<close>

datatype io_call =
    ClearScreen
  | PrintContext secret_context
  | PrintSecretNotFound secret_context
  | GetUserDecision bool bool
  | PrintMessage string

text \<open>
  The collaborators whose code is not among the sources, as parameters. The resolver runs
  under \<open>transient_settings(config)\<close>, so it takes the configuration; it returns the raw
  value or raises. \<open>get_code_snippet\<close> stands for reading the lines of the file and
  cutting the snippet around the line.
\<close>

record 'c collaborators =
  get_raw_secret_from_file :: "'c \<Rightarrow> potential_secret \<Rightarrow> error + string"
  get_code_snippet :: "string \<Rightarrow> int option \<Rightarrow> string list"
  colorize :: "string \<Rightarrow> ansi_color \<Rightarrow> string"

text \<open>
  Modelled from the spec: the class \<open>BidirectionalIterator\<close> of \<open>audit.iterator\<close> is not
  among the sources. The spec (section 4.2) gives a cursor \<open>i\<close> over the event list:
  stepping back is legal when \<open>i > 0\<close> and leads to \<open>i - 1\<close>, every other answer but quit
  leads to \<open>i + 1\<close>, and reaching the number of events ends the session. The spec leaves
  a step back at index 0 open (it is never offered); here it ends the session.
\<close>

definition can_step_back :: "nat \<Rightarrow> bool" where
  "can_step_back index = (0 < index)"

definition next_index :: "nat \<Rightarrow> nat \<Rightarrow> input_options \<Rightarrow> nat option" where
  "next_index n index decision =
     (if decision = BACK then (if 0 < index then Some (index - 1) else None)
      else (if index + 1 < n then Some (index + 1) else None))"

text \<open>Line 180: \<open>config = old_config if left_secret else new_config\<close>.\<close>

definition event_config :: "'c \<Rightarrow> 'c \<Rightarrow> change_event \<Rightarrow> 'c" where
  "event_config old_config new_config e =
     (if fst (snd e) \<noteq> None then old_config else new_config)"

text \<open>
  Line 184 assigns \<open>secret.secret_value\<close> on the record that the event in the collection
  holds, so a later visit of the event finds the value.
\<close>

definition set_secret_value :: "string \<Rightarrow> change_event \<Rightarrow> change_event" where
  "set_secret_value v e =
     (case fst (snd e) of
        Some left_secret \<Rightarrow> (fst e, Some (left_secret\<lparr>secret_value := Some v\<rparr>), snd (snd e))
      | None \<Rightarrow>
          (fst e, None, map_option (\<lambda>right_secret. right_secret\<lparr>secret_value := Some v\<rparr>) (snd (snd e))))"

text \<open>Lines 190 to 197: \<open>REMOVED\<close> when the right record is absent, \<open>ADDED\<close> otherwise.\<close>

definition status_header :: "'c collaborators \<Rightarrow> change_event \<Rightarrow> string" where
  "status_header env e =
     colorize env ''Status:'' BOLD @ ''      '' @ ''>> '' @
       (if snd (snd e) = None then colorize env ''REMOVED'' RED
        else colorize env ''ADDED'' LIGHT_GREEN) @ '' <<''"

text \<open>
  Lines 177 to 222, one pass of the loop up to the call of \<open>get_user_decision\<close>: the
  calls made, and the collection afterwards or the exception that escapes. Only
  \<open>SecretNotFoundOnSpecifiedLineError\<close> is caught (line 209); both paths ask for the
  decision with \<open>can_step_back = iterator.can_step_back()\<close> and
  \<open>prompt_secret_decision = False\<close>.
\<close>

definition show_event ::
  "'c collaborators \<Rightarrow> 'c \<Rightarrow> 'c \<Rightarrow> change_event list \<Rightarrow> nat
     \<Rightarrow> io_call list \<times> (error + change_event list)" where
  "show_event env old_config new_config collection index =
     (let e = collection ! index;
          secret = event_secret e;
          config = event_config old_config new_config e
      in case get_raw_secret_from_file env config secret of
           Inr v \<Rightarrow>
             (let secret = secret\<lparr>secret_value := Some v\<rparr>;
                  context = \<lparr>current_index = index + 1,
                    num_total_secrets = length collection,
                    secret = secret,
                    header = Some (status_header env e),
                    snippet = Some (get_code_snippet env (filename secret) (line_number secret)),
                    error = None\<rparr>
              in ([ClearScreen, PrintContext context,
                   GetUserDecision (can_step_back index) False],
                  Inr (collection[index := set_secret_value v e])))
         | Inl exception \<Rightarrow>
             (if exception = SecretNotFoundOnSpecifiedLineError
              then ([ClearScreen,
                     PrintSecretNotFound \<lparr>current_index = index + 1,
                       num_total_secrets = length collection,
                       secret = secret, header = None, snippet = None,
                       error = Some exception\<rparr>,
                     GetUserDecision (can_step_back index) False],
                    Inr collection)
              else ([ClearScreen], Inl exception)))"

text \<open>
  How a session ends: the events are exhausted, the reviewer quits, the answers given so
  far are used up, or an exception escapes.
\<close>

datatype session_end = Finished | Quitted | AwaitingDecision | Raised error

text \<open>The calls of one pass followed by those of the rest of the session.\<close>

definition after :: "io_call list \<Rightarrow> io_call list \<times> session_end \<Rightarrow> io_call list \<times> session_end" where
  "after shown rest = (shown @ fst rest, snd rest)"

text \<open>
  Lines 176 to 228: the \<open>for\<close> loop over the iterator, at the cursor \<open>index\<close>. The
  answers of the reviewer are a list, one element for each call of
  \<open>get_user_decision\<close>; each pass takes one, so the recursion is on that list.
  \<open>QUIT\<close> prints the message and breaks; \<open>BACK\<close> asks the iterator to step back.
\<close>

fun review ::
  "'c collaborators \<Rightarrow> 'c \<Rightarrow> 'c \<Rightarrow> change_event list \<Rightarrow> nat \<Rightarrow> input_options list
     \<Rightarrow> io_call list \<times> session_end" where
  "review env old_config new_config collection index decisions =
     (case show_event env old_config new_config collection index of
        (shown, Inl exception) \<Rightarrow> (shown, Raised exception)
      | (shown, Inr collection') \<Rightarrow>
          (case decisions of
             [] \<Rightarrow> (shown, AwaitingDecision)
           | decision # later \<Rightarrow>
               (if decision = QUIT then (shown @ [PrintMessage ''Quitting...''], Quitted)
                else (case next_index (length collection) index decision of
                        None \<Rightarrow> (shown, Finished)
                      | Some index' \<Rightarrow>
                          after shown
                            (review env old_config new_config collection' index' later)))))"

declare review.simps [simp del]

text \<open>
  Lines 163 to 176. \<open>list(_compare_baselines(...))\<close> is built before the loop starts, so
  an exception of the generator escapes before any event is shown.
\<close>

definition display_difference_to_user ::
  "'c collaborators \<Rightarrow> secrets_collection \<times> 'c \<Rightarrow> secrets_collection \<times> 'c
     \<Rightarrow> input_options list \<Rightarrow> error + (io_call list \<times> session_end)" where
  "display_difference_to_user env old_data new_data decisions =
     (let (old_baseline, old_config) = old_data;
          (new_baseline, new_config) = new_data
      in case list_of_generator (private_compare_baselines old_baseline new_baseline) of
           Inl exception \<Rightarrow> Inl exception
         | Inr collection \<Rightarrow>
             Inr (if collection = [] then ([], Finished)
                  else review env old_config new_config collection 0 decisions))"


subsection \<open>One pass of the loop\<close>

lemma show_event_not_found:
  "get_raw_secret_from_file env (event_config old_config new_config (collection ! index))
     (event_secret (collection ! index)) = Inl SecretNotFoundOnSpecifiedLineError \<Longrightarrow>
   show_event env old_config new_config collection index =
     ([ClearScreen,
       PrintSecretNotFound \<lparr>current_index = index + 1,
         num_total_secrets = length collection,
         secret = event_secret (collection ! index), header = None, snippet = None,
         error = Some SecretNotFoundOnSpecifiedLineError\<rparr>,
       GetUserDecision (can_step_back index) False],
      Inr collection)"
  by (simp add: show_event_def Let_def)

lemma show_event_found:
  "get_raw_secret_from_file env (event_config old_config new_config (collection ! index))
     (event_secret (collection ! index)) = Inr v \<Longrightarrow>
   show_event env old_config new_config collection index =
     ([ClearScreen,
       PrintContext \<lparr>current_index = index + 1,
         num_total_secrets = length collection,
         secret = (event_secret (collection ! index))\<lparr>secret_value := Some v\<rparr>,
         header = Some (status_header env (collection ! index)),
         snippet = Some (get_code_snippet env (filename (event_secret (collection ! index)))
           (line_number (event_secret (collection ! index)))),
         error = None\<rparr>,
       GetUserDecision (can_step_back index) False],
      Inr (collection[index := set_secret_value v (collection ! index)]))"
  by (simp add: show_event_def Let_def)

lemma show_event_raises:
  "snd (show_event env old_config new_config collection index) = Inl exception \<Longrightarrow>
   exception \<noteq> SecretNotFoundOnSpecifiedLineError"
  by (auto simp: show_event_def Let_def split: sum.splits if_splits)

lemma review_shown:
  "show_event env old_config new_config collection index = (shown, Inr collection') \<Longrightarrow>
   review env old_config new_config collection index decisions =
     (case decisions of
        [] \<Rightarrow> (shown, AwaitingDecision)
      | decision # later \<Rightarrow>
          (if decision = QUIT then (shown @ [PrintMessage ''Quitting...''], Quitted)
           else (case next_index (length collection) index decision of
                   None \<Rightarrow> (shown, Finished)
                 | Some index' \<Rightarrow>
                     after shown (review env old_config new_config collection' index' later))))"
  by (subst review.simps) simp

lemma review_not_found_never_escapes:
  "snd (review env old_config new_config collection index decisions)
     \<noteq> Raised SecretNotFoundOnSpecifiedLineError"
proof (induction decisions arbitrary: collection index)
  case Nil
  show ?case
  proof (cases "show_event env old_config new_config collection index")
    case (Pair shown outcome)
    then show ?thesis
      using show_event_raises [of env old_config new_config collection index]
      by (cases outcome) (auto simp: review.simps [of _ _ _ collection index])
  qed
next
  case (Cons decision later)
  show ?case
  proof (cases "show_event env old_config new_config collection index")
    case (Pair shown outcome)
    show ?thesis
    proof (cases outcome)
      case (Inl exception)
      with Pair show ?thesis
        using show_event_raises [of env old_config new_config collection index]
        by (auto simp: review.simps [of _ _ _ collection index])
    next
      case (Inr collection')
      with Pair Cons.IH show ?thesis
        by (auto simp: review_shown after_def split: option.splits)
    qed
  qed
qed


text \<open>
  Claim C8. At an event where resolving the raw value raises
  \<open>SecretNotFoundOnSpecifiedLineError\<close>, the session clears the screen, prints the
  secret-not-found context (the error in place of header and snippet), asks for the
  decision with the same \<open>can_step_back\<close> and with \<open>prompt_secret_decision = False\<close> as
  on the normal path (second conjunct), and goes on from the decision exactly as the
  normal path does: quit, step back or advance. Whatever the events, the collaborators
  and the answers are, that exception never ends the session (third conjunct).
\<close>

theorem resolution_failure_is_recoverable:
  "(get_raw_secret_from_file env (event_config old_config new_config (collection ! index))
      (event_secret (collection ! index)) = Inl SecretNotFoundOnSpecifiedLineError
    \<longrightarrow> review env old_config new_config collection index decisions =
          (let shown =
             [ClearScreen,
              PrintSecretNotFound \<lparr>current_index = index + 1,
                num_total_secrets = length collection,
                secret = event_secret (collection ! index), header = None, snippet = None,
                error = Some SecretNotFoundOnSpecifiedLineError\<rparr>,
              GetUserDecision (can_step_back index) False]
           in case decisions of
                [] \<Rightarrow> (shown, AwaitingDecision)
              | decision # later \<Rightarrow>
                  (if decision = QUIT then (shown @ [PrintMessage ''Quitting...''], Quitted)
                   else (case next_index (length collection) index decision of
                           None \<Rightarrow> (shown, Finished)
                         | Some index' \<Rightarrow>
                             after shown
                               (review env old_config new_config collection index' later)))))
   \<and> (get_raw_secret_from_file env (event_config old_config new_config (collection ! index))
      (event_secret (collection ! index)) = Inr v
    \<longrightarrow> review env old_config new_config collection index decisions =
          (let shown =
             [ClearScreen,
              PrintContext \<lparr>current_index = index + 1,
                num_total_secrets = length collection,
                secret = (event_secret (collection ! index))\<lparr>secret_value := Some v\<rparr>,
                header = Some (status_header env (collection ! index)),
                snippet = Some (get_code_snippet env
                  (filename (event_secret (collection ! index)))
                  (line_number (event_secret (collection ! index)))),
                error = None\<rparr>,
              GetUserDecision (can_step_back index) False]
           in case decisions of
                [] \<Rightarrow> (shown, AwaitingDecision)
              | decision # later \<Rightarrow>
                  (if decision = QUIT then (shown @ [PrintMessage ''Quitting...''], Quitted)
                   else (case next_index (length collection) index decision of
                           None \<Rightarrow> (shown, Finished)
                         | Some index' \<Rightarrow>
                             after shown
                               (review env old_config new_config
                                  (collection[index := set_secret_value v (collection ! index)])
                                  index' later)))))
   \<and> snd (review env old_config new_config collection index decisions)
       \<noteq> Raised SecretNotFoundOnSpecifiedLineError"
proof (intro conjI impI)
  assume "get_raw_secret_from_file env (event_config old_config new_config (collection ! index))
      (event_secret (collection ! index)) = Inl SecretNotFoundOnSpecifiedLineError"
  then show "review env old_config new_config collection index decisions =
          (let shown =
             [ClearScreen,
              PrintSecretNotFound \<lparr>current_index = index + 1,
                num_total_secrets = length collection,
                secret = event_secret (collection ! index), header = None, snippet = None,
                error = Some SecretNotFoundOnSpecifiedLineError\<rparr>,
              GetUserDecision (can_step_back index) False]
           in case decisions of
                [] \<Rightarrow> (shown, AwaitingDecision)
              | decision # later \<Rightarrow>
                  (if decision = QUIT then (shown @ [PrintMessage ''Quitting...''], Quitted)
                   else (case next_index (length collection) index decision of
                           None \<Rightarrow> (shown, Finished)
                         | Some index' \<Rightarrow>
                             after shown
                               (review env old_config new_config collection index' later))))"
    unfolding Let_def by (intro review_shown show_event_not_found)
next
  assume "get_raw_secret_from_file env (event_config old_config new_config (collection ! index))
      (event_secret (collection ! index)) = Inr v"
  then show "review env old_config new_config collection index decisions =
          (let shown =
             [ClearScreen,
              PrintContext \<lparr>current_index = index + 1,
                num_total_secrets = length collection,
                secret = (event_secret (collection ! index))\<lparr>secret_value := Some v\<rparr>,
                header = Some (status_header env (collection ! index)),
                snippet = Some (get_code_snippet env
                  (filename (event_secret (collection ! index)))
                  (line_number (event_secret (collection ! index)))),
                error = None\<rparr>,
              GetUserDecision (can_step_back index) False]
           in case decisions of
                [] \<Rightarrow> (shown, AwaitingDecision)
              | decision # later \<Rightarrow>
                  (if decision = QUIT then (shown @ [PrintMessage ''Quitting...''], Quitted)
                   else (case next_index (length collection) index decision of
                           None \<Rightarrow> (shown, Finished)
                         | Some index' \<Rightarrow>
                             after shown
                               (review env old_config new_config
                                  (collection[index := set_secret_value v (collection ! index)])
                                  index' later))))"
    unfolding Let_def by (intro review_shown show_event_found)
next
  show "snd (review env old_config new_config collection index decisions)
       \<noteq> Raised SecretNotFoundOnSpecifiedLineError"
    by (rule review_not_found_never_escapes)
qed

text \<open>
  An example: the value of the secret in \<open>a.py\<close> is found, the one in \<open>b.py\<close> is not.
  The reviewer is at the second event, steps back and quits.
\<close>

definition review_env :: "nat collaborators" where
  "review_env =
     \<lparr>get_raw_secret_from_file = (\<lambda>config secret.
          if filename secret = ''a.py'' then Inr ''hunter2''
          else Inl SecretNotFoundOnSpecifiedLineError),
      get_code_snippet = (\<lambda>name line. [''password = hunter2'']),
      colorize = (\<lambda>text color. text)\<rparr>"

definition two_events :: "change_event list" where
  "two_events = [(''a.py'', Some secret_a1, None), (''b.py'', None, Some secret_b1)]"

theorem resolution_failure_is_recoverable_witness:
  "get_raw_secret_from_file review_env (event_config 0 1 (two_events ! 1))
      (event_secret (two_events ! 1)) = Inl SecretNotFoundOnSpecifiedLineError
   \<and> review review_env 0 1 two_events 1 [BACK, QUIT] =
       ([ClearScreen,
         PrintSecretNotFound \<lparr>current_index = 2, num_total_secrets = 2, secret = secret_b1,
           header = None, snippet = None, error = Some SecretNotFoundOnSpecifiedLineError\<rparr>,
         GetUserDecision True False,
         ClearScreen,
         PrintContext \<lparr>current_index = 1, num_total_secrets = 2,
           secret = secret_a1\<lparr>secret_value := Some ''hunter2''\<rparr>,
           header = Some ''Status:      >> REMOVED <<'',
           snippet = Some [''password = hunter2''], error = None\<rparr>,
         GetUserDecision False False,
         PrintMessage ''Quitting...''],
        Quitted)"
proof -
  have failure: "get_raw_secret_from_file review_env (event_config 0 1 (two_events ! 1))
      (event_secret (two_events ! 1)) = Inl SecretNotFoundOnSpecifiedLineError"
    by (simp add: review_env_def two_events_def event_secret_def secret_b1_def)
  have found: "get_raw_secret_from_file review_env (event_config 0 1 (two_events ! 0))
      (event_secret (two_events ! 0)) = Inr ''hunter2''"
    by (simp add: review_env_def two_events_def event_secret_def secret_a1_def)
  note second = resolution_failure_is_recoverable [where env = review_env
      and old_config = 0 and new_config = 1 and collection = two_events and index = 1
      and decisions = "[BACK, QUIT]", THEN conjunct1, rule_format, OF failure]
  note first = resolution_failure_is_recoverable [where env = review_env
      and old_config = 0 and new_config = 1 and collection = two_events and index = 0
      and decisions = "[QUIT]" and v = "''hunter2''",
      THEN conjunct2, THEN conjunct1, rule_format, OF found]
  have "review review_env 0 1 two_events 0 [QUIT] =
       ([ClearScreen,
         PrintContext \<lparr>current_index = 1, num_total_secrets = 2,
           secret = secret_a1\<lparr>secret_value := Some ''hunter2''\<rparr>,
           header = Some ''Status:      >> REMOVED <<'',
           snippet = Some [''password = hunter2''], error = None\<rparr>,
         GetUserDecision False False,
         PrintMessage ''Quitting...''],
        Quitted)"
    unfolding first
    by (simp add: two_events_def event_secret_def status_header_def review_env_def
        can_step_back_def secret_a1_def)
  with second failure show ?thesis
    by (simp add: two_events_def event_secret_def next_index_def can_step_back_def after_def)
qed

text \<open>
  A \<open>NoLineNumberError\<close> of the generator ends \<open>_display_difference_to_user\<close> before the
  first call on the presentation collaborator.
\<close>

lemma no_line_number_before_review:
  "snd (private_compare_baselines old_baseline new_baseline) = Some exception \<Longrightarrow>
   display_difference_to_user env (old_baseline, old_config) (new_baseline, new_config) decisions
     = Inl exception"
  by (simp add: display_difference_to_user_def list_of_generator_def)

end
